theory Spec2Isabelle
  imports Main "HOL-Library.Word"
begin

unbundle bit_operations_syntax

section \<open>The D-Bus daemon (src/dbus/gpio-dbus.c)\<close>

subsection \<open>GLib log levels\<close>

text \<open>
  \<open>GLogLevelFlags\<close> is a C enum used as a bit mask, held in a 32-bit int. The masks are
  GLib's (gmessages.h), not this repository's:
  \<^verbatim>\<open>
  G_LOG_FLAG_RECURSION = 1 << 0,  G_LOG_FLAG_FATAL     = 1 << 1,
  G_LOG_LEVEL_ERROR    = 1 << 2,  G_LOG_LEVEL_CRITICAL = 1 << 3,
  G_LOG_LEVEL_WARNING  = 1 << 4,  G_LOG_LEVEL_MESSAGE  = 1 << 5,
  G_LOG_LEVEL_INFO     = 1 << 6,  G_LOG_LEVEL_DEBUG    = 1 << 7
  \<close>
\<close>

type_synonym GLogLevelFlags = "32 word"

definition G_LOG_LEVEL_ERROR :: GLogLevelFlags where
  "G_LOG_LEVEL_ERROR = push_bit 2 1"

definition G_LOG_LEVEL_CRITICAL :: GLogLevelFlags where
  "G_LOG_LEVEL_CRITICAL = push_bit 3 1"

definition G_LOG_LEVEL_WARNING :: GLogLevelFlags where
  "G_LOG_LEVEL_WARNING = push_bit 4 1"

definition G_LOG_LEVEL_MESSAGE :: GLogLevelFlags where
  "G_LOG_LEVEL_MESSAGE = push_bit 5 1"

definition G_LOG_LEVEL_INFO :: GLogLevelFlags where
  "G_LOG_LEVEL_INFO = push_bit 6 1"

definition G_LOG_LEVEL_DEBUG :: GLogLevelFlags where
  "G_LOG_LEVEL_DEBUG = push_bit 7 1"

text \<open>
  \<open>log_level_to_priority\<close> (gpio-dbus.c, lines 35-60): the chain of \<open>if (lvl & MASK)\<close>
  tests, in the order of the source, and the final \<open>return "5"\<close>.
\<close>

definition log_level_to_priority :: "GLogLevelFlags \<Rightarrow> string" where
  "log_level_to_priority lvl =
     (if lvl AND G_LOG_LEVEL_ERROR \<noteq> 0 then ''0''
      else if lvl AND G_LOG_LEVEL_CRITICAL \<noteq> 0 then ''3''
      else if lvl AND G_LOG_LEVEL_WARNING \<noteq> 0 then ''4''
      else if lvl AND G_LOG_LEVEL_MESSAGE \<noteq> 0 then ''5''
      else if lvl AND G_LOG_LEVEL_INFO \<noteq> 0 then ''6''
      else if lvl AND G_LOG_LEVEL_DEBUG \<noteq> 0 then ''7''
      else ''5'')"

subsection \<open>The log writer\<close>

text \<open>
  GLib's \<open>GLogField\<close>: \<open>key\<close> and \<open>value\<close> are pointers and may be NULL (\<open>None\<close>);
  \<open>log_write\<close> reads \<open>value\<close> as a NUL-terminated C string and never reads \<open>length\<close>.
\<close>

record GLogField =
  field_key :: "string option"
  field_value :: "string option"
  field_length :: int

datatype GLogWriterOutput = G_LOG_WRITER_HANDLED | G_LOG_WRITER_UNHANDLED

text \<open>C's \<open>strcmp\<close>: zero exactly on equal strings, the sign from the first differing byte.\<close>

fun strcmp :: "string \<Rightarrow> string \<Rightarrow> int" where
  "strcmp [] [] = 0"
| "strcmp [] (y # ys) = - 1"
| "strcmp (x # xs) [] = 1"
| "strcmp (x # xs) (y # ys) =
     (if x = y then strcmp xs ys
      else if (of_char x :: nat) < of_char y then - 1 else 1)"

text \<open>GLib's \<open>g_strcmp0\<close>: \<open>strcmp\<close> that accepts NULL, NULL sorting before any string.\<close>

fun g_strcmp0 :: "string option \<Rightarrow> string option \<Rightarrow> int" where
  "g_strcmp0 None None = 0"
| "g_strcmp0 None (Some b) = - 1"
| "g_strcmp0 (Some a) None = 1"
| "g_strcmp0 (Some a) (Some b) = strcmp a b"

text \<open>
  The \<open>for\<close> loop of \<open>log_write\<close> (lines 75-83) over the \<open>n_fields\<close> entries of \<open>fields\<close>
  (the array and its count are the list): \<open>msg\<close> starts as NULL, the first entry whose key
  compares equal to "MESSAGE" assigns its value to \<open>msg\<close> and breaks.
\<close>

fun find_msg :: "GLogField list \<Rightarrow> string option" where
  "find_msg [] = None"
| "find_msg (field # rest) =
     (if g_strcmp0 (field_key field) (Some ''MESSAGE'') = 0 then field_value field
      else find_msg rest)"

text \<open>\<open>g_printerr\<close> appends the formatted text to standard error, the state threaded here.\<close>

definition g_printerr :: "string \<Rightarrow> string \<Rightarrow> string" where
  "g_printerr err text = err @ text"

text \<open>
  \<open>log_write\<close> (lines 68-92): \<open>if (!msg) return G_LOG_WRITER_UNHANDLED\<close>, else print
  \<open>"<%s>%s\n"\<close> with the priority and the message and return \<open>G_LOG_WRITER_HANDLED\<close>.
\<close>

definition log_write :: "GLogLevelFlags \<Rightarrow> GLogField list \<Rightarrow> string \<Rightarrow> GLogWriterOutput \<times> string" where
  "log_write lvl flds err =
     (case find_msg flds of
        None \<Rightarrow> (G_LOG_WRITER_UNHANDLED, err)
      | Some msg \<Rightarrow>
          (let prio = log_level_to_priority lvl
           in (G_LOG_WRITER_HANDLED, g_printerr err (''<'' @ prio @ ''>'' @ msg @ [CHR 0x0A]))))"

text \<open>The claim's words "some entry has key k", for comparison with the loop.\<close>

definition has_key :: "string \<Rightarrow> GLogField list \<Rightarrow> bool" where
  "has_key k flds = list_ex (\<lambda>f. field_key f = Some k) flds"

subsection \<open>Signal handlers and the main loop\<close>

text \<open>
  What the handlers touch of \<open>MainLoopCtx\<close>: the loop behind \<open>ctx->loop\<close>, of which
  \<open>g_main_loop_quit\<close> clears the running flag, and the messages passed to \<open>g_debug\<close>,
  kept in call order.
\<close>

record MainLoopCtx =
  is_running :: bool
  debug_log :: "string list"

definition G_SOURCE_REMOVE :: bool where
  "G_SOURCE_REMOVE = False"

definition G_SOURCE_CONTINUE :: bool where
  "G_SOURCE_CONTINUE = True"

definition g_debug :: "string \<Rightarrow> MainLoopCtx \<Rightarrow> MainLoopCtx" where
  "g_debug msg ctx = ctx\<lparr>debug_log := debug_log ctx @ [msg]\<rparr>"

definition g_main_loop_quit :: "MainLoopCtx \<Rightarrow> MainLoopCtx" where
  "g_main_loop_quit ctx = ctx\<lparr>is_running := False\<rparr>"

text \<open>The three handlers (lines 94-121), each returning its \<open>gboolean\<close> and the new state.\<close>

definition on_sigterm :: "MainLoopCtx \<Rightarrow> bool \<times> MainLoopCtx" where
  "on_sigterm ctx = (G_SOURCE_REMOVE, g_main_loop_quit (g_debug ''SIGTERM received'' ctx))"

definition on_sigint :: "MainLoopCtx \<Rightarrow> bool \<times> MainLoopCtx" where
  "on_sigint ctx = (G_SOURCE_REMOVE, g_main_loop_quit (g_debug ''SIGINT received'' ctx))"

definition on_sighup :: "MainLoopCtx \<Rightarrow> bool \<times> MainLoopCtx" where
  "on_sighup ctx = (G_SOURCE_CONTINUE, g_debug ''SIGHUB received'' ctx)"

text \<open>Linux signal numbers.\<close>

definition SIGHUP :: int where "SIGHUP = 1"
definition SIGINT :: int where "SIGINT = 2"
definition SIGTERM :: int where "SIGTERM = 15"

text \<open>
  A source installed by \<open>g_unix_signal_add\<close>: the signal number and the callback. GLib
  calls the callback of every source of a delivered signal and destroys a source whose
  callback returned \<open>G_SOURCE_REMOVE\<close> (FALSE).
\<close>

type_synonym signal_source = "int \<times> (MainLoopCtx \<Rightarrow> bool \<times> MainLoopCtx)"

fun dispatch_signal :: "int \<Rightarrow> signal_source list \<Rightarrow> MainLoopCtx \<Rightarrow> signal_source list \<times> MainLoopCtx" where
  "dispatch_signal sig [] ctx = ([], ctx)"
| "dispatch_signal sig ((signum, handler) # srcs) ctx =
     (if signum = sig then
        (case handler ctx of (keep, ctx') \<Rightarrow>
           (case dispatch_signal sig srcs ctx' of (srcs', ctx'') \<Rightarrow>
              (if keep then (signum, handler) # srcs' else srcs', ctx'')))
      else
        (case dispatch_signal sig srcs ctx of (srcs', ctx') \<Rightarrow> ((signum, handler) # srcs', ctx')))"

fun deliver_signals :: "int list \<Rightarrow> signal_source list \<Rightarrow> MainLoopCtx \<Rightarrow> signal_source list \<times> MainLoopCtx" where
  "deliver_signals [] srcs ctx = (srcs, ctx)"
| "deliver_signals (sig # sigs) srcs ctx =
     (case dispatch_signal sig srcs ctx of (srcs', ctx') \<Rightarrow> deliver_signals sigs srcs' ctx')"

text \<open>The three \<open>g_unix_signal_add\<close> calls of \<open>main\<close> (lines 243-245), in order.\<close>

definition main_sources :: "signal_source list" where
  "main_sources = [(SIGTERM, on_sigterm), (SIGINT, on_sigint), (SIGHUP, on_sighup)]"

text \<open>
  The sources left installed once a SIGTERM and a SIGINT have or have not been dispatched:
  \<open>on_sigterm\<close>'s while \<open>t\<close>, \<open>on_sigint\<close>'s while \<open>i\<close>, \<open>on_sighup\<close>'s always.
\<close>

definition installed :: "bool \<Rightarrow> bool \<Rightarrow> signal_source list" where
  "installed t i =
     (if t then [(SIGTERM, on_sigterm)] else []) @ (if i then [(SIGINT, on_sigint)] else []) @
     [(SIGHUP, on_sighup)]"

text \<open>How often a handler ran: the number of its \<open>g_debug\<close> messages in the log.\<close>

definition msgs :: "string \<Rightarrow> MainLoopCtx \<Rightarrow> nat" where
  "msgs m ctx = count_list (debug_log ctx) m"

text \<open>The claim's words "the first field (in array order) whose key is k".\<close>

definition first_with_key :: "string \<Rightarrow> GLogField list \<Rightarrow> GLogField option" where
  "first_with_key k flds = find (\<lambda>f. field_key f = Some k) flds"

section \<open>The line-request core, from the specification\<close>

text \<open>
  The library code behind line requests and line handles is not among the source files;
  of it they hold only the NEWS entry "use reference counting for line file descriptors".
  Every definition of this section is therefore written from the specification, whose
  sentences are quoted at each one, and none is a translation of code.
\<close>

subsection \<open>Data model\<close>

text \<open>Modelled from the spec: the error kinds of its section 7 (and \<open>Unsupported\<close> of 4.1).\<close>

datatype error =
  NotFound | Busy | InvalidConfig | PermissionDenied | Closed | DoubleRelease
  | Interrupted | Invalidated | Unsupported | IOError int

text \<open>
  Modelled from the spec: the LineRequest, "the single underlying kernel descriptor, an
  ordered sequence of (line offset, LineConfig) pairs", with the registry's reference count
  for it. \<open>closed\<close> is the mark of a request that was torn down (set when the count
  reaches zero); \<open>close_calls\<close> counts how often the kernel descriptor was closed, so the
  descriptor is open while it is 0. The per-line configuration and the consumer
  label are left out: no operation modelled here reads them. The count is an \<open>int\<close>, so
  that an underflow would show as a negative value.
\<close>

record line_request =
  descriptor :: nat
  offsets :: "nat list"
  refcount :: int
  closed :: bool
  close_calls :: nat

text \<open>
  Modelled from the spec: the LineHandle, "a lightweight, cheaply copyable reference to a
  LineRequest plus the subset of line offsets the caller is allowed to address through it".
  The request is named by its index in the registry; \<open>released\<close> records the handle's
  explicit release.
\<close>

record line_handle =
  request :: nat
  handle_offsets :: "nat list"
  released :: bool

text \<open>
  Modelled from the spec: the state of the Shared Handle Registry, which "reference-counts
  a Line Request across however many logical line handle objects the caller has obtained
  from it": every request and every handle ever handed out, a request and a handle being
  named by their index. The registry's code is missing from the source files.
\<close>

record registry =
  requests :: "line_request list"
  handles :: "line_handle list"

definition empty_registry :: registry where
  "empty_registry = \<lparr>requests = [], handles = []\<rparr>"

text \<open>
  Modelled from the spec: following a reference. The interface of the spec hands out only
  requests and handles it created; an index that names none is answered \<open>None\<close>.
\<close>

definition lookup_request :: "registry \<Rightarrow> nat \<Rightarrow> line_request option" where
  "lookup_request s rid = (if rid < length (requests s) then Some (requests s ! rid) else None)"

definition lookup_handle :: "registry \<Rightarrow> nat \<Rightarrow> line_handle option" where
  "lookup_handle s h = (if h < length (handles s) then Some (handles s ! h) else None)"

text \<open>
  Modelled from the spec: the "number of live LineHandles referencing that request", a
  handle being live from its creation ("derive a handle from a request", "clone an existing
  handle") to its "explicit release".
\<close>

definition live_handles :: "registry \<Rightarrow> nat \<Rightarrow> nat" where
  "live_handles s rid = length (filter (\<lambda>h. request h = rid \<and> \<not> released h) (handles s))"

subsection \<open>The Shared Handle Registry\<close>

text \<open>
  Modelled from the spec: the registry's part of a successful \<open>request\<close>, "On success,
  initializes the reference count to 1 and returns the first LineHandle covering all
  requested offsets". The validation and the kernel call of \<open>request\<close> are not modelled;
  \<open>fd\<close> is the descriptor the kernel returned. The result is the new handle and the new
  registry.
\<close>

definition new_request :: "registry \<Rightarrow> nat \<Rightarrow> nat list \<Rightarrow> nat \<times> registry" where
  "new_request s fd offs =
     (length (handles s),
      s\<lparr>requests := requests s @
           [\<lparr>descriptor = fd, offsets = offs, refcount = 1, closed = False, close_calls = 0\<rparr>],
        handles := handles s @
           [\<lparr>request = length (requests s), handle_offsets = offs, released = False\<rparr>]\<rparr>)"

text \<open>
  Modelled from the spec: "\<open>derive(request, subset_of_offsets) -> LineHandle\<close>: increments
  the request's reference count; fails with \<open>InvalidConfig\<close> if any offset is not part of
  the request", and \<open>Closed\<close> is the error of an "operation on a handle whose request was
  already torn down". An index that names no request (the API hands out none) is
  \<open>NotFound\<close>.
\<close>

definition derive :: "registry \<Rightarrow> nat \<Rightarrow> nat list \<Rightarrow> error + nat \<times> registry" where
  "derive s rid sub =
     (case lookup_request s rid of
        None \<Rightarrow> Inl NotFound
      | Some r \<Rightarrow>
          if closed r then Inl Closed
          else if \<not> list_all (\<lambda>off. off \<in> set (offsets r)) sub then Inl InvalidConfig
          else Inr (length (handles s),
                 s\<lparr>requests := (requests s)[rid := r\<lparr>refcount := refcount r + 1\<rparr>],
                   handles := handles s @
                     [\<lparr>request = rid, handle_offsets = sub, released = False\<rparr>]\<rparr>))"

text \<open>
  Modelled from the spec: "\<open>clone(handle) -> LineHandle\<close>: increments the count; the clone
  is independent for release purposes", failing with \<open>Closed\<close> once the request is closed
  ("a LineHandle is never usable after its LineRequest's descriptor has been closed").
  The spec names no error for cloning a released handle of a request that is still open;
  the model follows its words and lets the clone succeed.
\<close>

definition clone :: "registry \<Rightarrow> nat \<Rightarrow> error + nat \<times> registry" where
  "clone s h =
     (case lookup_handle s h of
        None \<Rightarrow> Inl NotFound
      | Some lh \<Rightarrow>
          (case lookup_request s (request lh) of
             None \<Rightarrow> Inl NotFound
           | Some r \<Rightarrow>
               if closed r then Inl Closed
               else Inr (length (handles s),
                      s\<lparr>requests := (requests s)[request lh := r\<lparr>refcount := refcount r + 1\<rparr>],
                        handles := handles s @
                          [\<lparr>request = request lh, handle_offsets = handle_offsets lh,
                            released = False\<rparr>]\<rparr>)))"

text \<open>
  Modelled from the spec: what \<open>release\<close> does to the request, "decrements the count; when
  it reaches zero, closes the kernel descriptor exactly once". The library's code for it
  is missing from the source files.
\<close>

definition released_request :: "line_request \<Rightarrow> line_request" where
  "released_request r =
     (let n = refcount r - 1
      in if n = 0 then r\<lparr>refcount := n, closed := True, close_calls := close_calls r + 1\<rparr>
         else r\<lparr>refcount := n\<rparr>)"

text \<open>
  Modelled from the spec: "\<open>release(handle) -> ()\<close>: decrements the count; when it reaches
  zero, closes the kernel descriptor exactly once. Idempotent per-handle: releasing the
  same handle twice is a programming error reported as \<open>DoubleRelease\<close>, not a crash."
\<close>

definition release :: "registry \<Rightarrow> nat \<Rightarrow> error + registry" where
  "release s h =
     (case lookup_handle s h of
        None \<Rightarrow> Inl NotFound
      | Some lh \<Rightarrow>
          if released lh then Inl DoubleRelease
          else
            (case lookup_request s (request lh) of
               None \<Rightarrow> Inl NotFound
             | Some r \<Rightarrow>
                 Inr (s\<lparr>requests := (requests s)[request lh := released_request r],
                        handles := (handles s)[h := lh\<lparr>released := True\<rparr>]\<rparr>)))"

text \<open>
  Modelled from the spec: the caller's calls on the registry ("expose only
  \<open>derive\<close>/\<open>clone\<close>/\<open>release\<close>", and the request that creates a LineRequest), and a run of
  them. A call that fails returns its error and leaves the registry as it was ("no partial
  state change on invalid input").
\<close>

datatype reg_op = Request nat "nat list" | Derive nat "nat list" | Clone nat | Release nat

fun step :: "registry \<Rightarrow> reg_op \<Rightarrow> error + registry" where
  "step s (Request fd offs) = Inr (snd (new_request s fd offs))"
| "step s (Derive rid sub) = map_sum id snd (derive s rid sub)"
| "step s (Clone h) = map_sum id snd (clone s h)"
| "step s (Release h) = release s h"

definition exec :: "registry \<Rightarrow> reg_op \<Rightarrow> registry" where
  "exec s op = (case step s op of Inl e \<Rightarrow> s | Inr s' \<Rightarrow> s')"

definition run :: "registry \<Rightarrow> reg_op list \<Rightarrow> registry" where
  "run s ops = foldl exec s ops"

text \<open>
  The invariant the proofs carry through a run, after the spec's "reference count is always
  \<open>\<ge>\<close> number of live LineHandles referencing that request; it never underflows" and "the
  descriptor is valid for exactly the lifetime between creation and the registry's
  reference count reaching zero": every handle references a request of the registry, and
  for every request the count is the number of its live handles, the request is marked
  closed exactly when the count is zero, and its descriptor was closed once if the count
  is zero and never otherwise.
\<close>

definition request_ok :: "registry \<Rightarrow> nat \<Rightarrow> bool" where
  "request_ok s rid =
     (let r = requests s ! rid
      in refcount r = int (live_handles s rid) \<and>
         closed r = (refcount r = 0) \<and>
         close_calls r = (if refcount r = 0 then 1 else 0))"

definition registry_ok :: "registry \<Rightarrow> bool" where
  "registry_ok s =
     (list_all (\<lambda>h. request h < length (requests s)) (handles s) \<and>
      list_all (request_ok s) [0..<length (requests s)])"

subsection \<open>The Event Monitor's wait\<close>

text \<open>
  The code of \<open>poll\<close> is not among the source files either; of the signal handling they
  hold only the NEWS entry "correctly handle signal interrupts when polling in
  gpiod_simple_event_loop()". The definitions of this subsection are written from the
  specification's sections 4.3, 5 and 9.
\<close>

text \<open>
  Modelled from the spec: the Event, "line offset, edge type (rising/falling), kernel
  timestamp (monotonic, nanosecond resolution), sequence number".
\<close>

datatype edge_type = Rising | Falling

record event =
  line_offset :: nat
  edge :: edge_type
  timestamp :: nat
  seqno :: nat

text \<open>
  Modelled from the spec: the timeout of \<open>poll\<close>, "an explicit timeout, including
  infinite and immediate as named special values". Time is counted in ticks; the
  immediate timeout is \<open>Finite 0\<close>.
\<close>

datatype timeout = Finite nat | Infinite

text \<open>
  Modelled from the spec: what \<open>poll\<close> returns when it does not fail, the "ordered sequence
  of (LineRequest-tag, Event)", or "\<open>Interrupted\<close> (empty result, not an error)", which is
  "not a failure, a control result". A failure is an \<open>error\<close>.
\<close>

datatype poll_result = Events "(nat \<times> event) list" | InterruptedEmpty

fun entries :: "poll_result \<Rightarrow> (nat \<times> event) list" where
  "entries (Events es) = es"
| "entries InterruptedEmpty = []"

text \<open>
  Modelled from the spec: the injected source of what can end a wait ("inject a fake
  interruption source"), each happening with the ticks it comes after the start of the
  current wait: a signal with its number, descriptors found readable, each given by the
  tag of its request and its queued event records, or a failure of the kernel call with
  its raw code.
\<close>

datatype happening =
  Signal nat nat | Readable nat "(nat \<times> event list) list" | Fails nat int

fun delay :: "happening \<Rightarrow> nat" where
  "delay (Signal d sig) = d"
| "delay (Readable d ready) = d"
| "delay (Fails d code) = d"

text \<open>
  Modelled from the spec: a wait with budget \<open>t\<close> sees what happens within the budget, and
  a restarted wait has "the remaining timeout budget".
\<close>

fun within :: "timeout \<Rightarrow> nat \<Rightarrow> bool" where
  "within (Finite n) d = (d \<le> n)"
| "within Infinite d = True"

fun remaining :: "timeout \<Rightarrow> nat \<Rightarrow> timeout" where
  "remaining (Finite n) d = Finite (n - d)"
| "remaining Infinite d = Infinite"

text \<open>
  Modelled from the spec: "decodes all currently queued kernel event records in kernel
  delivery order, tagging each with its owning request", for the descriptors of the
  monitor set \<open>mon\<close> (the tags of the monitored requests).
\<close>

definition decode :: "nat list \<Rightarrow> (nat \<times> event list) list \<Rightarrow> (nat \<times> event) list" where
  "decode mon ready =
     concat (map (\<lambda>(rid, evs). if rid \<in> set mon then map (Pair rid) evs else []) ready)"

text \<open>
  Modelled from the spec: \<open>poll\<close> "blocks until at least one descriptor becomes readable,
  the timeout elapses, or the call is interrupted by an external signal. On an interruption
  caused by a signal whose handler requested cancellation, returns \<open>Interrupted\<close> (empty
  result, not an error) rather than retrying transparently. On any other signal
  interruption where no cancellation was requested, the monitor transparently restarts the
  underlying wait with the remaining timeout budget. Zero-event timeout expiry returns an
  empty sequence, not an error." Which signals request cancellation "is a caller-supplied
  policy", \<open>policy\<close>; "kernel-call failures are surfaced to the immediate caller".
  Readable descriptors outside the monitor set do not end the wait. The result comes with
  the ticks the call blocked, \<open>elapsed\<close> counting those of the waits already restarted.
  \<open>None\<close> is a call that never returns: an infinite timeout and nothing more to happen.
  The invalid status of a descriptor is not modelled here.
\<close>

fun poll_wait :: "(nat \<Rightarrow> bool) \<Rightarrow> nat list \<Rightarrow> timeout \<Rightarrow> happening list \<Rightarrow> nat \<Rightarrow> ((error + poll_result) \<times> nat) option" where
  "poll_wait policy mon (Finite n) [] elapsed = Some (Inr (Events []), elapsed + n)"
| "poll_wait policy mon Infinite [] elapsed = None"
| "poll_wait policy mon t (h # hs) elapsed =
     (if \<not> within t (delay h) then
        (case t of Finite n \<Rightarrow> Some (Inr (Events []), elapsed + n) | Infinite \<Rightarrow> None)
      else
        (case h of
           Signal d sig \<Rightarrow>
             if policy sig then Some (Inr InterruptedEmpty, elapsed + d)
             else poll_wait policy mon (remaining t d) hs (elapsed + d)
         | Readable d ready \<Rightarrow>
             if decode mon ready = [] then poll_wait policy mon (remaining t d) hs (elapsed + d)
             else Some (Inr (Events (decode mon ready)), elapsed + d)
         | Fails d code \<Rightarrow> Some (Inl (IOError code), elapsed + d)))"

definition poll :: "(nat \<Rightarrow> bool) \<Rightarrow> nat list \<Rightarrow> timeout \<Rightarrow> happening list \<Rightarrow> ((error + poll_result) \<times> nat) option" where
  "poll policy mon t hs = poll_wait policy mon t hs 0"

text \<open>A run of signals none of which requests cancellation, and the ticks it takes.\<close>

definition incidental :: "(nat \<Rightarrow> bool) \<Rightarrow> (nat \<times> nat) list \<Rightarrow> bool" where
  "incidental policy sigs = list_all (\<lambda>(d, sig). \<not> policy sig) sigs"

definition signals :: "(nat \<times> nat) list \<Rightarrow> happening list" where
  "signals sigs = map (\<lambda>(d, sig). Signal d sig) sigs"

definition ticks :: "(nat \<times> nat) list \<Rightarrow> nat" where
  "ticks sigs = sum_list (map fst sigs)"

text \<open>
  Modelled from the spec: a happening that does not end the wait, that is a signal that
  requests no cancellation or readable descriptors none of which is in the monitor set.
  With only such happenings before the expiry, the timeout "elapses with zero events".
\<close>

fun uneventful :: "(nat \<Rightarrow> bool) \<Rightarrow> nat list \<Rightarrow> happening \<Rightarrow> bool" where
  "uneventful policy mon (Signal d sig) = (\<not> policy sig)"
| "uneventful policy mon (Readable d ready) = (decode mon ready = [])"
| "uneventful policy mon (Fails d code) = False"

section \<open>Properties of the daemon\<close>

lemma level_mask_bit:
  "(lvl AND push_bit n 1 \<noteq> 0) = bit lvl n" for lvl :: "32 word"
  by (metis and_exp_eq_0_iff_not_bit mult_1 push_bit_eq_mult)

subsection \<open>The syslog priority of a log level\<close>

lemmas level_defs = G_LOG_LEVEL_ERROR_def G_LOG_LEVEL_CRITICAL_def G_LOG_LEVEL_WARNING_def
  G_LOG_LEVEL_MESSAGE_def G_LOG_LEVEL_INFO_def G_LOG_LEVEL_DEBUG_def

lemma log_level_to_priority_bits:
  "log_level_to_priority lvl =
     (if bit lvl 2 then ''0'' else if bit lvl 3 then ''3'' else if bit lvl 4 then ''4''
      else if bit lvl 5 then ''5'' else if bit lvl 6 then ''6'' else if bit lvl 7 then ''7''
      else ''5'')"
  unfolding log_level_to_priority_def level_defs level_mask_bit by (rule refl)

lemma six_bits_clear:
  "(lvl AND (G_LOG_LEVEL_ERROR OR G_LOG_LEVEL_CRITICAL OR G_LOG_LEVEL_WARNING OR
      G_LOG_LEVEL_MESSAGE OR G_LOG_LEVEL_INFO OR G_LOG_LEVEL_DEBUG) = 0) =
   (\<not> bit lvl 2 \<and> \<not> bit lvl 3 \<and> \<not> bit lvl 4 \<and> \<not> bit lvl 5 \<and> \<not> bit lvl 6 \<and> \<not> bit lvl 7)"
proof -
  have dist: "(lvl AND (a OR b) = 0) = (lvl AND a = 0 \<and> lvl AND b = 0)" for a b :: "32 word"
    by (simp add: bit.conj_disj_distrib or_eq_0_iff)
  have clear: "(lvl AND push_bit n 1 = 0) = (\<not> bit lvl n)" for n
    using level_mask_bit [of lvl n] by blast
  show ?thesis
    by (simp only: level_defs dist clear conj_assoc)
qed

text \<open>
  C8. \<open>log_level_to_priority\<close> is total: for every 32-bit flags value the result is one of
  "0", "3", "4", "5", "6", "7". The result is the priority of the most severe level bit
  that is set, in the order ERROR (bit 2), CRITICAL (bit 3), WARNING (bit 4), MESSAGE
  (bit 5), INFO (bit 6), DEBUG (bit 7); when none of the six level bits is set (only the
  RECURSION and FATAL flags or higher bits, or nothing) the result is "5".
\<close>

theorem log_level_to_priority_total:
  "log_level_to_priority lvl \<in> {''0'', ''3'', ''4'', ''5'', ''6'', ''7''} \<and>
   log_level_to_priority lvl =
     (if bit lvl 2 then ''0'' else if bit lvl 3 then ''3'' else if bit lvl 4 then ''4''
      else if bit lvl 5 then ''5'' else if bit lvl 6 then ''6'' else if bit lvl 7 then ''7''
      else ''5'') \<and>
   (lvl AND (G_LOG_LEVEL_ERROR OR G_LOG_LEVEL_CRITICAL OR G_LOG_LEVEL_WARNING OR
      G_LOG_LEVEL_MESSAGE OR G_LOG_LEVEL_INFO OR G_LOG_LEVEL_DEBUG) = 0
    \<longrightarrow> log_level_to_priority lvl = ''5'')"
  unfolding six_bits_clear by (simp add: log_level_to_priority_bits)

theorem log_level_to_priority_total_witness:
  "(3 :: 32 word) AND (G_LOG_LEVEL_ERROR OR G_LOG_LEVEL_CRITICAL OR G_LOG_LEVEL_WARNING OR
      G_LOG_LEVEL_MESSAGE OR G_LOG_LEVEL_INFO OR G_LOG_LEVEL_DEBUG) = 0 \<and>
   log_level_to_priority 3 = ''5'' \<and>
   log_level_to_priority (G_LOG_LEVEL_INFO OR G_LOG_LEVEL_CRITICAL) = ''3''"
  using log_level_to_priority_total [of 3]
    log_level_to_priority_total [of "G_LOG_LEVEL_INFO OR G_LOG_LEVEL_CRITICAL"]
  by (simp add: level_defs)

subsection \<open>The log writer\<close>

lemma strcmp_eq_0: "(strcmp a b = 0) = (a = b)"
  by (induction a b rule: strcmp.induct) auto

lemma g_strcmp0_eq_0: "(g_strcmp0 a b = 0) = (a = b)"
  by (cases a; cases b) (simp_all add: strcmp_eq_0)

lemma find_msg_first:
  "find_msg flds = Option.bind (first_with_key ''MESSAGE'' flds) field_value"
  by (induction flds) (simp_all add: first_with_key_def g_strcmp0_eq_0)

lemma has_key_first: "has_key k flds = (first_with_key k flds \<noteq> None)"
  by (induction flds) (simp_all add: has_key_def first_with_key_def)

text \<open>
  C9, as stated, fails: a field with key "MESSAGE" whose value pointer is NULL leaves \<open>msg\<close>
  NULL at the \<open>break\<close>, and \<open>log_write\<close> returns \<open>G_LOG_WRITER_UNHANDLED\<close> although an entry
  has the key.
\<close>

theorem log_write_null_message_counterexample:
  "\<not> ((fst (log_write G_LOG_LEVEL_WARNING
          [\<lparr>field_key = Some ''MESSAGE'', field_value = None, field_length = - 1\<rparr>] [])
        = G_LOG_WRITER_UNHANDLED) =
       (\<not> has_key ''MESSAGE''
          [\<lparr>field_key = Some ''MESSAGE'', field_value = None, field_length = - 1\<rparr>]))"
  by (simp add: log_write_def has_key_def)

text \<open>
  C9, amended. \<open>log_write\<close> looks only at the first field (in array order) whose key is
  "MESSAGE". If there is none, or the value of that first field is NULL, it prints nothing
  and returns \<open>G_LOG_WRITER_UNHANDLED\<close>; otherwise it appends to standard error the line
  \<open><prio>value\<close> of that first field, with the priority of \<open>log_level_to_priority\<close>, and
  returns \<open>G_LOG_WRITER_HANDLED\<close>. So it returns \<open>G_LOG_WRITER_UNHANDLED\<close> if and only if no
  entry has key "MESSAGE" or the first such entry has a NULL value.
\<close>

theorem log_write_message:
  "log_write lvl flds err =
     (case first_with_key ''MESSAGE'' flds of
        None \<Rightarrow> (G_LOG_WRITER_UNHANDLED, err)
      | Some f \<Rightarrow>
          (case field_value f of
             None \<Rightarrow> (G_LOG_WRITER_UNHANDLED, err)
           | Some msg \<Rightarrow>
               (G_LOG_WRITER_HANDLED,
                err @ ''<'' @ log_level_to_priority lvl @ ''>'' @ msg @ [CHR 0x0A]))) \<and>
   ((fst (log_write lvl flds err) = G_LOG_WRITER_UNHANDLED) =
      (\<not> has_key ''MESSAGE'' flds \<or>
       map_option field_value (first_with_key ''MESSAGE'' flds) = Some None))"
  by (auto simp: log_write_def find_msg_first has_key_first g_printerr_def
      split: option.splits)

theorem log_write_message_witness:
  "log_write G_LOG_LEVEL_WARNING
     [\<lparr>field_key = Some ''PRIORITY'', field_value = Some ''4'', field_length = - 1\<rparr>,
      \<lparr>field_key = Some ''MESSAGE'', field_value = Some ''first'', field_length = - 1\<rparr>,
      \<lparr>field_key = Some ''MESSAGE'', field_value = Some ''second'', field_length = - 1\<rparr>] []
     = (G_LOG_WRITER_HANDLED, ''<4>first'' @ [CHR 0x0A]) \<and>
   has_key ''MESSAGE''
     [\<lparr>field_key = Some ''PRIORITY'', field_value = Some ''4'', field_length = - 1\<rparr>,
      \<lparr>field_key = Some ''MESSAGE'', field_value = Some ''first'', field_length = - 1\<rparr>,
      \<lparr>field_key = Some ''MESSAGE'', field_value = Some ''second'', field_length = - 1\<rparr>] \<and>
   fst (log_write G_LOG_LEVEL_WARNING
     [\<lparr>field_key = None, field_value = Some ''x'', field_length = - 1\<rparr>,
      \<lparr>field_key = Some ''MESSAGE'', field_value = None, field_length = - 1\<rparr>,
      \<lparr>field_key = Some ''MESSAGE'', field_value = Some ''second'', field_length = - 1\<rparr>] [])
     = G_LOG_WRITER_UNHANDLED \<and>
   fst (log_write G_LOG_LEVEL_WARNING
     [\<lparr>field_key = Some ''CODE_FILE'', field_value = Some ''x'', field_length = - 1\<rparr>] [])
     = G_LOG_WRITER_UNHANDLED"
  using log_write_message [of G_LOG_LEVEL_WARNING
     "[\<lparr>field_key = Some ''PRIORITY'', field_value = Some ''4'', field_length = - 1\<rparr>,
      \<lparr>field_key = Some ''MESSAGE'', field_value = Some ''first'', field_length = - 1\<rparr>,
      \<lparr>field_key = Some ''MESSAGE'', field_value = Some ''second'', field_length = - 1\<rparr>]" "[]"]
    log_write_message [of G_LOG_LEVEL_WARNING
     "[\<lparr>field_key = None, field_value = Some ''x'', field_length = - 1\<rparr>,
      \<lparr>field_key = Some ''MESSAGE'', field_value = None, field_length = - 1\<rparr>,
      \<lparr>field_key = Some ''MESSAGE'', field_value = Some ''second'', field_length = - 1\<rparr>]" "[]"]
    log_write_message [of G_LOG_LEVEL_WARNING
     "[\<lparr>field_key = Some ''CODE_FILE'', field_value = Some ''x'', field_length = - 1\<rparr>]" "[]"]
  by (simp add: first_with_key_def has_key_def log_level_to_priority_bits G_LOG_LEVEL_WARNING_def)

subsection \<open>Signal dispositions\<close>

lemmas signal_defs = SIGHUP_def SIGINT_def SIGTERM_def

lemmas handler_defs = on_sigterm_def on_sigint_def on_sighup_def g_debug_def
  g_main_loop_quit_def G_SOURCE_REMOVE_def G_SOURCE_CONTINUE_def

lemma main_sources_installed: "main_sources = installed True True"
  by (simp add: main_sources_def installed_def)

lemma dispatch_installed:
  "dispatch_signal sig (installed t i) ctx =
     (installed (t \<and> sig \<noteq> SIGTERM) (i \<and> sig \<noteq> SIGINT),
      if sig = SIGTERM \<and> t then snd (on_sigterm ctx)
      else if sig = SIGINT \<and> i then snd (on_sigint ctx)
      else if sig = SIGHUP then snd (on_sighup ctx) else ctx)"
  by (simp add: installed_def signal_defs handler_defs)

lemma deliver_installed:
  "deliver_signals sigs (installed t i) ctx = (srcs, ctx') \<Longrightarrow>
     srcs = installed (t \<and> SIGTERM \<notin> set sigs) (i \<and> SIGINT \<notin> set sigs) \<and>
     msgs ''SIGTERM received'' ctx' =
       msgs ''SIGTERM received'' ctx + (if t \<and> SIGTERM \<in> set sigs then 1 else 0) \<and>
     msgs ''SIGINT received'' ctx' =
       msgs ''SIGINT received'' ctx + (if i \<and> SIGINT \<in> set sigs then 1 else 0) \<and>
     msgs ''SIGHUB received'' ctx' = msgs ''SIGHUB received'' ctx + count_list sigs SIGHUP \<and>
     is_running ctx' =
       (is_running ctx \<and> \<not> (t \<and> SIGTERM \<in> set sigs) \<and> \<not> (i \<and> SIGINT \<in> set sigs))"
proof (induction sigs arbitrary: t i ctx)
  case Nil
  then show ?case by simp
next
  case (Cons sig sigs)
  from Cons.prems
  have rest: "deliver_signals sigs (installed (t \<and> sig \<noteq> SIGTERM) (i \<and> sig \<noteq> SIGINT))
      (if sig = SIGTERM \<and> t then snd (on_sigterm ctx)
       else if sig = SIGINT \<and> i then snd (on_sigint ctx)
       else if sig = SIGHUP then snd (on_sighup ctx) else ctx) = (srcs, ctx')"
    by (simp add: dispatch_installed)
  show ?case
    using Cons.IH [OF rest]
    by (auto simp: msgs_def signal_defs handler_defs)
qed

text \<open>
  C10. The handlers differ by signal. \<open>on_sighup\<close> returns \<open>G_SOURCE_CONTINUE\<close> and leaves the
  loop running as it was; \<open>on_sigterm\<close> and \<open>on_sigint\<close> each quit the loop and return
  \<open>G_SOURCE_REMOVE\<close>. With the three sources \<open>main\<close> installs, after any sequence of delivered
  signals: the SIGHUP source is still installed and has run once per SIGHUP, the SIGTERM
  (SIGINT) source has run exactly once if a SIGTERM (SIGINT) was delivered and never
  otherwise, and is installed only while none was; the loop was quit exactly if a SIGTERM
  or a SIGINT was delivered.
\<close>

theorem signal_dispositions:
  "fst (on_sighup ctx) = G_SOURCE_CONTINUE \<and>
   is_running (snd (on_sighup ctx)) = is_running ctx \<and>
   fst (on_sigterm ctx) = G_SOURCE_REMOVE \<and> \<not> is_running (snd (on_sigterm ctx)) \<and>
   fst (on_sigint ctx) = G_SOURCE_REMOVE \<and> \<not> is_running (snd (on_sigint ctx)) \<and>
   G_SOURCE_CONTINUE \<noteq> G_SOURCE_REMOVE \<and>
   fst (deliver_signals sigs main_sources ctx) =
     installed (SIGTERM \<notin> set sigs) (SIGINT \<notin> set sigs) \<and>
   (SIGHUP, on_sighup) \<in> set (fst (deliver_signals sigs main_sources ctx)) \<and>
   msgs ''SIGHUB received'' (snd (deliver_signals sigs main_sources ctx)) =
     msgs ''SIGHUB received'' ctx + count_list sigs SIGHUP \<and>
   msgs ''SIGTERM received'' (snd (deliver_signals sigs main_sources ctx)) =
     msgs ''SIGTERM received'' ctx + (if SIGTERM \<in> set sigs then 1 else 0) \<and>
   msgs ''SIGINT received'' (snd (deliver_signals sigs main_sources ctx)) =
     msgs ''SIGINT received'' ctx + (if SIGINT \<in> set sigs then 1 else 0) \<and>
   is_running (snd (deliver_signals sigs main_sources ctx)) =
     (is_running ctx \<and> SIGTERM \<notin> set sigs \<and> SIGINT \<notin> set sigs)"
proof -
  obtain srcs ctx' where d: "deliver_signals sigs (installed True True) ctx = (srcs, ctx')"
    by (cases "deliver_signals sigs (installed True True) ctx")
  have hup: "(SIGHUP, on_sighup) \<in> set (installed t i)" for t i
    by (simp add: installed_def)
  show ?thesis
    using deliver_installed [OF d] d hup
    by (simp add: main_sources_installed handler_defs)
qed

theorem signal_dispositions_witness:
  "fst (deliver_signals [SIGHUP, SIGTERM, SIGHUP, SIGTERM]
         main_sources \<lparr>is_running = True, debug_log = []\<rparr>)
     = [(SIGINT, on_sigint), (SIGHUP, on_sighup)] \<and>
   debug_log (snd (deliver_signals [SIGHUP, SIGTERM, SIGHUP, SIGTERM]
         main_sources \<lparr>is_running = True, debug_log = []\<rparr>))
     = [''SIGHUB received'', ''SIGTERM received'', ''SIGHUB received''] \<and>
   \<not> is_running (snd (deliver_signals [SIGHUP, SIGTERM, SIGHUP, SIGTERM]
         main_sources \<lparr>is_running = True, debug_log = []\<rparr>))"
  using signal_dispositions [of "\<lparr>is_running = True, debug_log = []\<rparr>"
      "[SIGHUP, SIGTERM, SIGHUP, SIGTERM]"]
  by (simp add: main_sources_def installed_def signal_defs handler_defs)

section \<open>Properties of the Shared Handle Registry\<close>

lemma filter_update_count:
  "i < length xs \<Longrightarrow>
     length (filter P (xs[i := y])) + (if P (xs ! i) then 1 else 0) =
     length (filter P xs) + (if P y then 1 else 0)"
proof (induction xs arbitrary: i)
  case Nil
  then show ?case by simp
next
  case (Cons x xs)
  then show ?case by (cases i) auto
qed

lemma registry_ok_iff:
  "registry_ok s =
     ((\<forall>h \<in> set (handles s). request h < length (requests s)) \<and>
      (\<forall>rid < length (requests s). request_ok s rid))"
  by (auto simp: registry_ok_def list_all_iff)

lemma live_handles_append:
  "live_handles (s\<lparr>requests := rs, handles := handles s @ [h]\<rparr>) rid =
     live_handles s rid + (if request h = rid \<and> \<not> released h then 1 else 0)"
  by (simp add: live_handles_def)

lemma live_handles_none:
  "\<forall>h \<in> set (handles s). request h < length (requests s) \<Longrightarrow> length (requests s) \<le> rid \<Longrightarrow>
     live_handles s rid = 0"
  by (auto simp: live_handles_def filter_empty_conv)

lemma live_handles_release:
  "h < length (handles s) \<Longrightarrow> \<not> released (handles s ! h) \<Longrightarrow>
     live_handles (s\<lparr>requests := rs, handles := (handles s)[h := (handles s ! h)\<lparr>released := True\<rparr>]\<rparr>) rid
       + (if request (handles s ! h) = rid then 1 else 0) = live_handles s rid"
  using filter_update_count [of h "handles s" "\<lambda>x. request x = rid \<and> \<not> released x"
      "(handles s ! h)\<lparr>released := True\<rparr>"]
  by (simp add: live_handles_def)

lemma new_request_ok:
  assumes "registry_ok s"
  shows "registry_ok (snd (new_request s fd offs))"
  using assms live_handles_none [of s "length (requests s)"]
  by (auto simp: registry_ok_iff new_request_def request_ok_def live_handles_append nth_append
      less_Suc_eq)

lemma derive_ok:
  assumes "registry_ok s" "derive s rid sub = Inr (h, s')"
  shows "registry_ok s'"
  using assms
  by (auto simp: registry_ok_iff derive_def lookup_request_def request_ok_def Let_def
      live_handles_append nth_list_update split: if_splits)

lemma clone_ok:
  assumes "registry_ok s" "clone s h = Inr (h', s')"
  shows "registry_ok s'"
  using assms
  by (auto simp: registry_ok_iff clone_def lookup_request_def lookup_handle_def request_ok_def
      Let_def live_handles_append nth_list_update split: if_splits)

lemma release_live:
  assumes "h < length (handles s)" "\<not> released (handles s ! h)"
    "request (handles s ! h) < length (requests s)"
  shows "release s h =
     Inr (s\<lparr>requests := (requests s)[request (handles s ! h) :=
                 released_request (requests s ! request (handles s ! h))],
            handles := (handles s)[h := (handles s ! h)\<lparr>released := True\<rparr>]\<rparr>)"
  using assms
  by (simp add: release_def lookup_handle_def lookup_request_def released_request_def Let_def)

lemma release_Inr:
  assumes "release s h = Inr s'"
  shows "h < length (handles s) \<and> \<not> released (handles s ! h) \<and>
     request (handles s ! h) < length (requests s)"
  using assms
  by (auto simp: release_def lookup_handle_def lookup_request_def split: if_splits)

lemma release_ok:
  assumes ok: "registry_ok s" and rel: "release s h = Inr s'"
  shows "registry_ok s'"
proof -
  let ?lh = "handles s ! h"
  from release_Inr [OF rel]
  have h: "h < length (handles s)" and live: "\<not> released ?lh"
    and r: "request ?lh < length (requests s)"
    by simp_all
  from rel release_live [OF h live r]
  have s': "s' = s\<lparr>requests := (requests s)[request ?lh := released_request (requests s ! request ?lh)],
      handles := (handles s)[h := ?lh\<lparr>released := True\<rparr>]\<rparr>"
    by simp
  have count: "live_handles s' rid + (if request ?lh = rid then 1 else 0) = live_handles s rid"
    for rid
    unfolding s' by (rule live_handles_release [OF h live])
  have reqs: "requests s' =
      (requests s)[request ?lh := released_request (requests s ! request ?lh)]"
    and hnds: "handles s' = (handles s)[h := ?lh\<lparr>released := True\<rparr>]"
    by (simp_all add: s')
  have refs: "\<forall>x \<in> set (handles s'). request x < length (requests s')"
  proof
    fix x assume "x \<in> set (handles s')"
    then have "x \<in> insert (?lh\<lparr>released := True\<rparr>) (set (handles s))"
      using set_update_subset_insert [of "handles s" h] by (auto simp: hnds)
    then show "request x < length (requests s')"
      using ok r by (auto simp: registry_ok_iff reqs)
  qed
  have each: "request_ok s' rid" if "rid < length (requests s')" for rid
  proof -
    from that have rid: "rid < length (requests s)" by (simp add: reqs)
    with ok have inv: "request_ok s rid" by (simp add: registry_ok_iff)
    show ?thesis
    proof (cases "rid = request ?lh")
      case True
      with count [of rid] have "live_handles s rid = Suc (live_handles s' rid)" by simp
      with inv True rid show ?thesis
        by (auto simp: request_ok_def reqs released_request_def Let_def)
    next
      case False
      with count [of rid] have "live_handles s' rid = live_handles s rid" by simp
      with inv False rid show ?thesis
        by (simp add: request_ok_def reqs Let_def)
    qed
  qed
  from refs each show ?thesis by (simp add: registry_ok_iff)
qed

lemma step_ok: "registry_ok s \<Longrightarrow> step s op = Inr s' \<Longrightarrow> registry_ok s'"
proof (cases op)
  case (Request fd offs)
  assume "registry_ok s" "step s op = Inr s'"
  with Request show ?thesis using new_request_ok [of s fd offs] by auto
next
  case (Derive rid sub)
  assume "registry_ok s" "step s op = Inr s'"
  with Derive show ?thesis
    by (cases "derive s rid sub") (auto dest: derive_ok)
next
  case (Clone h)
  assume "registry_ok s" "step s op = Inr s'"
  with Clone show ?thesis
    by (cases "clone s h") (auto dest: clone_ok)
next
  case (Release h)
  assume "registry_ok s" "step s op = Inr s'"
  with Release show ?thesis by (auto dest: release_ok)
qed

lemma exec_ok: "registry_ok s \<Longrightarrow> registry_ok (exec s op)"
  by (cases "step s op") (auto simp: exec_def dest: step_ok)

lemma run_ok: "registry_ok s \<Longrightarrow> registry_ok (run s ops)"
  unfolding run_def by (induction ops arbitrary: s) (simp_all add: exec_ok)

lemma empty_registry_ok: "registry_ok empty_registry"
  by (simp add: registry_ok_def empty_registry_def)

lemma run_append: "run s (ops @ ops') = run (run s ops) ops'"
  by (simp add: run_def)

lemma run_Cons: "run s (op # ops) = run (exec s op) ops"
  by (simp add: run_def)

lemma exec_Release_live:
  assumes "h < length (handles s)" "\<not> released (handles s ! h)"
    "request (handles s ! h) < length (requests s)"
  shows "exec s (Release h) =
     s\<lparr>requests := (requests s)[request (handles s ! h) :=
              released_request (requests s ! request (handles s ! h))],
       handles := (handles s)[h := (handles s ! h)\<lparr>released := True\<rparr>]\<rparr>"
  by (simp add: exec_def release_live [OF assms])

lemma release_many:
  assumes "registry_ok s" "distinct hs"
    "\<forall>h \<in> set hs. h < length (handles s) \<and> request (handles s ! h) = rid \<and>
       \<not> released (handles s ! h)"
  shows "live_handles (run s (map Release hs)) rid + length hs = live_handles s rid \<and>
     length (requests (run s (map Release hs))) = length (requests s)"
  using assms
proof (induction hs arbitrary: s)
  case Nil
  then show ?case by (simp add: run_def)
next
  case (Cons h hs)
  let ?lh = "handles s ! h"
  let ?s' = "exec s (Release h)"
  from Cons.prems have h: "h < length (handles s)" and live: "\<not> released ?lh"
    and rid: "request ?lh = rid"
    by simp_all
  from Cons.prems(1) h have r: "request ?lh < length (requests s)"
    by (simp add: registry_ok_iff)
  note s' = exec_Release_live [OF h live r]
  have ok': "registry_ok ?s'" using Cons.prems(1) by (rule exec_ok)
  have rest: "\<forall>h' \<in> set hs. h' < length (handles ?s') \<and> request (handles ?s' ! h') = rid \<and>
       \<not> released (handles ?s' ! h')"
  proof
    fix h' assume h': "h' \<in> set hs"
    with Cons.prems(2) have "h' \<noteq> h" by auto
    with h' Cons.prems(3) show "h' < length (handles ?s') \<and> request (handles ?s' ! h') = rid \<and>
       \<not> released (handles ?s' ! h')"
      by (simp add: s')
  qed
  from Cons.prems(2) have "distinct hs" by simp
  from Cons.IH [OF ok' this rest]
  have IH: "live_handles (run ?s' (map Release hs)) rid + length hs = live_handles ?s' rid"
    and len: "length (requests (run ?s' (map Release hs))) = length (requests ?s')"
    by simp_all
  have "live_handles ?s' rid + 1 = live_handles s rid"
    unfolding s' using live_handles_release [OF h live, of _ rid] rid by simp
  with IH len show ?case by (simp add: run_Cons s')
qed

lemma close_calls_step:
  assumes rid: "rid < length (requests s)"
    and changed: "close_calls (requests (exec s op) ! rid) \<noteq> close_calls (requests s ! rid)"
  shows "\<exists>h. op = Release h \<and> refcount (requests s ! rid) = 1 \<and>
     refcount (requests (exec s op) ! rid) = 0 \<and>
     close_calls (requests (exec s op) ! rid) = close_calls (requests s ! rid) + 1"
proof (cases op)
  case (Request fd offs)
  with rid changed show ?thesis
    by (simp add: exec_def new_request_def nth_append)
next
  case (Derive rid' sub)
  with rid changed show ?thesis
    by (auto simp: exec_def derive_def lookup_request_def nth_list_update
        split: if_splits)
next
  case (Clone h)
  with rid changed show ?thesis
    by (auto simp: exec_def clone_def lookup_request_def lookup_handle_def nth_list_update
        split: if_splits)
next
  case (Release h)
  with rid changed show ?thesis
    by (auto simp: exec_def release_def lookup_request_def lookup_handle_def nth_list_update
        released_request_def Let_def split: if_splits)
qed

text \<open>
  C1 (against the model written from the specification). Let \<open>s\<close> be the registry after any
  run of request, derive, clone and release calls, failed ones included, and \<open>rid\<close> one of
  its requests. Then the reference count of \<open>rid\<close> is not negative and is the number of
  live handles referencing it; the request is closed exactly when the count is zero, and
  its kernel descriptor was closed once if the count is zero and never otherwise. Releasing
  any \<open>k\<close> distinct live handles of \<open>rid\<close> lowers the count by \<open>k\<close>, and the descriptor is
  closed (once) after them exactly when they were all \<open>N\<close> live handles: it stays open
  across the first \<open>N - 1\<close> releases. A single call changes the number of closes of the
  descriptor only if it is a release that takes the count from 1 to 0, and then from 0
  to 1.
\<close>

theorem refcount_lifetime:
  assumes reach: "s = run empty_registry ops"
    and rid: "rid < length (requests s)"
    and hs: "distinct hs"
      "\<forall>h \<in> set hs. h < length (handles s) \<and> request (handles s ! h) = rid \<and>
         \<not> released (handles s ! h)"
  shows "(0 \<le> refcount (requests s ! rid) \<and>
      refcount (requests s ! rid) = int (live_handles s rid) \<and>
      closed (requests s ! rid) = (refcount (requests s ! rid) = 0) \<and>
      close_calls (requests s ! rid) = (if refcount (requests s ! rid) = 0 then 1 else 0)) \<and>
     (refcount (requests (run s (map Release hs)) ! rid) =
        refcount (requests s ! rid) - int (length hs) \<and>
      closed (requests (run s (map Release hs)) ! rid) =
        (length hs = live_handles s rid) \<and>
      close_calls (requests (run s (map Release hs)) ! rid) =
        (if length hs = live_handles s rid then 1 else 0)) \<and>
     (\<forall>op. close_calls (requests (exec s op) ! rid) \<noteq> close_calls (requests s ! rid) \<longrightarrow>
        (\<exists>h. op = Release h \<and>
           refcount (requests s ! rid) = 1 \<and> refcount (requests (exec s op) ! rid) = 0 \<and>
           close_calls (requests s ! rid) = 0 \<and> close_calls (requests (exec s op) ! rid) = 1))"
proof -
  have ok: "registry_ok s"
    unfolding reach using empty_registry_ok by (rule run_ok)
  with rid have inv: "request_ok s rid" by (simp add: registry_ok_iff)
  let ?s' = "run s (map Release hs)"
  have ok': "registry_ok ?s'" using ok by (rule run_ok)
  from release_many [OF ok hs]
  have live': "live_handles ?s' rid + length hs = live_handles s rid"
    and len: "length (requests ?s') = length (requests s)"
    by simp_all
  from ok' rid len have inv': "request_ok ?s' rid" by (simp add: registry_ok_iff)
  have now: "0 \<le> refcount (requests s ! rid) \<and>
      refcount (requests s ! rid) = int (live_handles s rid) \<and>
      closed (requests s ! rid) = (refcount (requests s ! rid) = 0) \<and>
      close_calls (requests s ! rid) = (if refcount (requests s ! rid) = 0 then 1 else 0)"
    using inv by (simp add: request_ok_def Let_def)
  have after: "refcount (requests ?s' ! rid) = refcount (requests s ! rid) - int (length hs) \<and>
      closed (requests ?s' ! rid) = (length hs = live_handles s rid) \<and>
      close_calls (requests ?s' ! rid) = (if length hs = live_handles s rid then 1 else 0)"
    using inv inv' live' by (auto simp: request_ok_def Let_def)
  have steps: "\<exists>h. op = Release h \<and>
           refcount (requests s ! rid) = 1 \<and> refcount (requests (exec s op) ! rid) = 0 \<and>
           close_calls (requests s ! rid) = 0 \<and> close_calls (requests (exec s op) ! rid) = 1"
    if "close_calls (requests (exec s op) ! rid) \<noteq> close_calls (requests s ! rid)" for op
    using close_calls_step [OF rid that] now by auto
  from now after steps show ?thesis by blast
qed

theorem refcount_lifetime_witness:
  "live_handles (run empty_registry [Request 7 [0, 1, 2], Clone 0, Derive 0 [1, 2]]) 0 = 3 \<and>
   refcount (requests (run empty_registry [Request 7 [0, 1, 2], Clone 0, Derive 0 [1, 2]]) ! 0) = 3 \<and>
   close_calls (requests (run (run empty_registry [Request 7 [0, 1, 2], Clone 0, Derive 0 [1, 2]])
      (map Release [2, 0])) ! 0) = 0 \<and>
   close_calls (requests (run (run empty_registry [Request 7 [0, 1, 2], Clone 0, Derive 0 [1, 2]])
      (map Release [2, 0, 1])) ! 0) = 1"
proof -
  let ?s = "run empty_registry [Request 7 [0, 1, 2], Clone 0, Derive 0 [1, 2]]"
  have rid: "0 < length (requests ?s)"
    by code_simp
  have live: "live_handles ?s 0 = 3"
    by code_simp
  have two: "\<forall>h \<in> set [2, 0]. h < length (handles ?s) \<and> request (handles ?s ! h) = 0 \<and>
      \<not> released (handles ?s ! h)"
    by code_simp
  have three: "\<forall>h \<in> set [2, 0, 1]. h < length (handles ?s) \<and> request (handles ?s ! h) = 0 \<and>
      \<not> released (handles ?s ! h)"
    by code_simp
  have d2: "distinct [2, 0 :: nat]" and d3: "distinct [2, 0, 1 :: nat]"
    by simp_all
  show ?thesis
    using refcount_lifetime [OF refl rid d2 two] refcount_lifetime [OF refl rid d3 three] live
    by simp
qed

lemma released_exec:
  assumes "h < length (handles s)" "released (handles s ! h)"
  shows "h < length (handles (exec s op)) \<and> released (handles (exec s op) ! h)"
proof (cases op)
  case (Request fd offs)
  with assms show ?thesis by (simp add: exec_def new_request_def nth_append)
next
  case (Derive rid sub)
  with assms show ?thesis
    by (auto simp: exec_def derive_def nth_append split: option.splits)
next
  case (Clone h')
  with assms show ?thesis
    by (auto simp: exec_def clone_def nth_append split: option.splits)
next
  case (Release h')
  with assms show ?thesis
    by (auto simp: exec_def release_def lookup_handle_def nth_list_update split: option.splits)
qed

lemma released_run:
  assumes "h < length (handles s)" "released (handles s ! h)"
  shows "h < length (handles (run s ops)) \<and> released (handles (run s ops) ! h)"
  using assms
proof (induction ops arbitrary: s)
  case Nil
  then show ?case by (simp add: run_def)
next
  case (Cons op ops)
  from released_exec [OF Cons.prems, of op] show ?case
    by (simp add: run_Cons Cons.IH)
qed

lemma release_released:
  assumes "h < length (handles s)" "released (handles s ! h)"
  shows "release s h = Inl DoubleRelease"
  using assms by (simp add: release_def lookup_handle_def)

text \<open>
  C5 (against the model written from the specification). Let \<open>s\<close> be the registry after any
  run of calls and let a release of handle \<open>h\<close> succeed in it, which lowers the count of
  the handle's request by one. After any further run of calls, releasing \<open>h\<close> again returns
  \<open>DoubleRelease\<close> and leaves the whole registry as it was, the reference counts included;
  every count is still the number of live handles of its request, and a request is closed
  exactly when it has no live handle left.
\<close>

theorem double_release:
  assumes reach: "s = run empty_registry ops0"
    and first: "release s h = Inr s1"
    and later: "s2 = run s1 ops"
  shows "release s2 h = Inl DoubleRelease \<and> exec s2 (Release h) = s2 \<and>
     refcount (requests s1 ! request (handles s ! h)) =
       refcount (requests s ! request (handles s ! h)) - 1 \<and>
     (\<forall>rid < length (requests s2).
        refcount (requests s2 ! rid) = int (live_handles s2 rid) \<and>
        closed (requests s2 ! rid) = (live_handles s2 rid = 0))"
proof -
  let ?lh = "handles s ! h"
  from release_Inr [OF first]
  have h: "h < length (handles s)" and live: "\<not> released ?lh"
    and r: "request ?lh < length (requests s)"
    by simp_all
  from first release_live [OF h live r]
  have s1: "s1 = s\<lparr>requests := (requests s)[request ?lh := released_request (requests s ! request ?lh)],
      handles := (handles s)[h := ?lh\<lparr>released := True\<rparr>]\<rparr>"
    by simp
  have "h < length (handles s1) \<and> released (handles s1 ! h)"
    using h by (simp add: s1)
  then have gone: "h < length (handles s2) \<and> released (handles s2 ! h)"
    unfolding later using released_run by blast
  then have again: "release s2 h = Inl DoubleRelease"
    using release_released by blast
  then have same: "exec s2 (Release h) = s2"
    by (simp add: exec_def)
  have once: "refcount (requests s1 ! request ?lh) = refcount (requests s ! request ?lh) - 1"
    using r by (simp add: s1 released_request_def Let_def)
  have "registry_ok s"
    unfolding reach using empty_registry_ok by (rule run_ok)
  then have "registry_ok s1" using first by (rule release_ok)
  then have "registry_ok s2" unfolding later by (rule run_ok)
  then have inv: "\<forall>rid < length (requests s2).
        refcount (requests s2 ! rid) = int (live_handles s2 rid) \<and>
        closed (requests s2 ! rid) = (live_handles s2 rid = 0)"
    by (auto simp: registry_ok_iff request_ok_def Let_def)
  from again same once inv show ?thesis by blast
qed

theorem double_release_witness:
  "release (run empty_registry [Request 3 [4, 5], Clone 0]) 0 \<noteq> Inl DoubleRelease \<and>
   release (run (exec (run empty_registry [Request 3 [4, 5], Clone 0]) (Release 0))
      [Derive 0 [4], Release 2]) 0 = Inl DoubleRelease \<and>
   refcount (requests (run (exec (run empty_registry [Request 3 [4, 5], Clone 0]) (Release 0))
      [Derive 0 [4], Release 2, Release 0]) ! 0) = 1"
proof -
  let ?s = "run empty_registry [Request 3 [4, 5], Clone 0]"
  have first: "release ?s 0 = Inr (exec ?s (Release 0))"
    by code_simp
  have one: "live_handles (run (exec ?s (Release 0)) [Derive 0 [4], Release 2]) 0 = 1"
    by code_simp
  have len: "0 < length (requests (run (exec ?s (Release 0)) [Derive 0 [4], Release 2]))"
    by code_simp
  show ?thesis
    using double_release [OF refl first refl, of "[Derive 0 [4], Release 2]"] first one len
    by (simp add: run_append [of _ "[Derive 0 [4], Release 2]" "[Release 0]", simplified] run_def)
qed

section \<open>Properties of the Event Monitor's wait\<close>

lemma within_add: "within t (d + k) = (within t d \<and> within (remaining t d) k)"
  by (cases t) auto

lemma remaining_add: "remaining (remaining t d) k = remaining t (d + k)"
  by (cases t) auto

lemma poll_wait_restarts:
  assumes "incidental policy pre" "within t (ticks pre)"
  shows "poll_wait policy mon t (signals pre @ hs) elapsed =
     poll_wait policy mon (remaining t (ticks pre)) hs (elapsed + ticks pre)"
  using assms
proof (induction pre arbitrary: t elapsed)
  case Nil
  then show ?case by (cases t) (simp_all add: signals_def ticks_def)
next
  case (Cons p pre)
  obtain d sig where p: "p = (d, sig)" by (cases p)
  from Cons.prems p have quiet: "\<not> policy sig" and rest: "incidental policy pre"
    by (simp_all add: incidental_def)
  from Cons.prems(2) p have now: "within t d" and later: "within (remaining t d) (ticks pre)"
    by (simp_all add: ticks_def within_add)
  have "poll_wait policy mon t (signals (p # pre) @ hs) elapsed =
      poll_wait policy mon (remaining t d) (signals pre @ hs) (elapsed + d)"
    using quiet now by (simp add: p signals_def)
  also have "\<dots> = poll_wait policy mon (remaining (remaining t d) (ticks pre)) hs
      (elapsed + d + ticks pre)"
    by (rule Cons.IH [OF rest later])
  finally show ?case by (simp add: p ticks_def remaining_add add.assoc)
qed

lemma poll_wait_bounded:
  "\<exists>r e. poll_wait policy mon (Finite n) hs elapsed = Some (r, e) \<and>
     elapsed \<le> e \<and> e \<le> elapsed + n"
proof (induction hs arbitrary: n elapsed)
  case Nil
  show ?case by simp
next
  case (Cons h hs)
  show ?case
  proof (cases "delay h \<le> n")
    case False
    then show ?thesis by simp
  next
    case True
    from Cons.IH [of "n - delay h" "elapsed + delay h"] obtain r e
      where "poll_wait policy mon (Finite (n - delay h)) hs (elapsed + delay h) = Some (r, e)"
        and "elapsed + delay h \<le> e" and "e \<le> elapsed + delay h + (n - delay h)"
      by blast
    with True show ?thesis by (cases h) auto
  qed
qed

text \<open>
  C3 (against the model written from the specification). Let a poll call be interrupted
  by signals for which the caller's policy requests no cancellation, \<open>pre\<close>, each arriving
  within what is left of the timeout. If the next signal arrives within the budget and
  the policy requests cancellation for it, \<open>poll\<close> returns the control result
  \<open>Interrupted\<close>, which is a result and not an error and carries no entry, after exactly the
  ticks waited so far. After the signals of \<open>pre\<close> the call goes on as a wait restarted with
  the remaining budget, the timeout less the ticks already waited. Whatever happens then,
  a call with a finite timeout of \<open>n\<close> ticks returns, and has blocked at most \<open>n\<close> ticks.
\<close>

theorem poll_signal_interruption:
  assumes "incidental policy pre"
  shows "(policy sig \<and> within t (ticks pre + d) \<longrightarrow>
       poll policy mon t (signals pre @ Signal d sig # hs) =
         Some (Inr InterruptedEmpty, ticks pre + d) \<and>
       entries InterruptedEmpty = []) \<and>
     (within t (ticks pre) \<longrightarrow>
       poll policy mon t (signals pre @ hs) =
         poll_wait policy mon (remaining t (ticks pre)) hs (ticks pre)) \<and>
     (\<forall>n. \<exists>r e. poll policy mon (Finite n) (signals pre @ hs) = Some (r, e) \<and> e \<le> n)"
proof -
  have cancel: "poll policy mon t (signals pre @ Signal d sig # hs) =
      Some (Inr InterruptedEmpty, ticks pre + d)"
    if "policy sig" "within t (ticks pre + d)"
  proof -
    from that(2) have "within t (ticks pre)" "within (remaining t (ticks pre)) d"
      by (simp_all add: within_add)
    with that(1) poll_wait_restarts [OF assms, of t mon "Signal d sig # hs" 0]
    show ?thesis by (simp add: poll_def)
  qed
  have restart: "poll policy mon t (signals pre @ hs) =
      poll_wait policy mon (remaining t (ticks pre)) hs (ticks pre)"
    if "within t (ticks pre)"
    using poll_wait_restarts [OF assms that, of mon hs 0] by (simp add: poll_def)
  have bound: "\<exists>r e. poll policy mon (Finite n) (signals pre @ hs) = Some (r, e) \<and> e \<le> n"
    for n
    using poll_wait_bounded [of policy mon n "signals pre @ hs" 0] by (auto simp: poll_def)
  from cancel restart bound show ?thesis by simp
qed


theorem poll_signal_interruption_witness:
  "poll (\<lambda>sig. sig = 15) [0] (Finite 10) [Signal 3 1, Signal 4 1, Signal 2 15] =
     Some (Inr InterruptedEmpty, 9) \<and>
   poll (\<lambda>sig. sig = 15) [0] Infinite [Signal 3 1, Signal 4 1, Signal 2 15] =
     Some (Inr InterruptedEmpty, 9) \<and>
   poll (\<lambda>sig. sig = 15) [0] (Finite 10) [Signal 3 1, Signal 4 1, Signal 4 15] =
     Some (Inr (Events []), 10)"
proof -
  have inc: "incidental (\<lambda>sig. sig = 15) [(3, 1), (4, 1)]"
    by (simp add: incidental_def)
  have a: "within (Finite 10) (ticks [(3, 1), (4, 1)] + 2)"
    and a': "within Infinite (ticks [(3, 1), (4, 1)] + 2)"
    and b: "within (Finite 10) (ticks [(3, 1), (4, 1)])"
    by (simp_all add: ticks_def)
  from poll_signal_interruption [OF inc, of 15 "Finite 10" 2 "[0]" "[]"] a
  have one: "poll (\<lambda>sig. sig = 15) [0] (Finite 10) [Signal 3 1, Signal 4 1, Signal 2 15] =
     Some (Inr InterruptedEmpty, 9)"
    by (simp add: signals_def ticks_def)
  from poll_signal_interruption [OF inc, of 15 Infinite 2 "[0]" "[]"] a'
  have two: "poll (\<lambda>sig. sig = 15) [0] Infinite [Signal 3 1, Signal 4 1, Signal 2 15] =
     Some (Inr InterruptedEmpty, 9)"
    by (simp add: signals_def ticks_def)
  from poll_signal_interruption [OF inc, of 15 "Finite 10" 2 "[0]" "[Signal 4 15]"] b
  have three: "poll (\<lambda>sig. sig = 15) [0] (Finite 10) [Signal 3 1, Signal 4 1, Signal 4 15] =
     Some (Inr (Events []), 10)"
    by (simp add: signals_def ticks_def)
  from one two three show ?thesis by simp
qed

text \<open>
  The expiry of the timeout: when nothing but uneventful happenings comes within the \<open>n\<close>
  ticks of a finite timeout, \<open>poll\<close> returns the empty sequence, as a result and not an
  error, after exactly \<open>n\<close> ticks. For the empty monitor set no readable descriptor is
  ever eventful.
\<close>

lemma poll_wait_uneventful:
  assumes "list_all (uneventful policy mon) pre" "within t (sum_list (map delay pre))"
  shows "poll_wait policy mon t (pre @ hs) elapsed =
     poll_wait policy mon (remaining t (sum_list (map delay pre))) hs
       (elapsed + sum_list (map delay pre))"
  using assms
proof (induction pre arbitrary: t elapsed)
  case Nil
  then show ?case by (cases t) simp_all
next
  case (Cons h pre)
  from Cons.prems(2) have now: "within t (delay h)"
    and later: "within (remaining t (delay h)) (sum_list (map delay pre))"
    by (simp_all add: within_add)
  from Cons.prems(1) have h: "uneventful policy mon h" and rest: "list_all (uneventful policy mon) pre"
    by simp_all
  have "poll_wait policy mon t ((h # pre) @ hs) elapsed =
      poll_wait policy mon (remaining t (delay h)) (pre @ hs) (elapsed + delay h)"
    using h now by (cases h) simp_all
  also have "\<dots> = poll_wait policy mon (remaining (remaining t (delay h)) (sum_list (map delay pre)))
      hs (elapsed + delay h + sum_list (map delay pre))"
    by (rule Cons.IH [OF rest later])
  finally show ?case by (simp add: remaining_add add.assoc)
qed

lemma poll_expires_empty:
  assumes quiet: "list_all (uneventful policy mon) pre"
    and early: "sum_list (map delay pre) \<le> n"
    and late: "hs = [] \<or> n < sum_list (map delay pre) + delay (hd hs)"
  shows "poll policy mon (Finite n) (pre @ hs) = Some (Inr (Events []), n)"
proof -
  let ?k = "sum_list (map delay pre)"
  from early have "within (Finite n) ?k" by simp
  from poll_wait_uneventful [OF quiet this, of hs 0]
  have "poll policy mon (Finite n) (pre @ hs) = poll_wait policy mon (Finite (n - ?k)) hs ?k"
    by (simp add: poll_def)
  also have "\<dots> = Some (Inr (Events []), n)"
    using late early by (cases hs) auto
  finally show ?thesis .
qed

lemma uneventful_empty_set: "uneventful policy [] (Readable d ready)"
  by (induction ready) (auto simp: decode_def)

end
